theory Spec2Isabelle
  imports Main "HOL-Library.Word" "HOL-Library.Signed_Division"
begin

unbundle bit_operations_syntax

section \<open>Machine model\<close>

text \<open>
  The library is written for the 32-bit xCORE processor: a C \<open>int\<close> is a 32-bit
  two's-complement word whose arithmetic wraps, and the register pair \<open>ah:al\<close> that the
  inline assembly works on is one 64-bit accumulator. The Q-format argument is kept as an
  unbounded integer; the specification gives \<open>1 \<le> q \<le> 31\<close> as its valid range.
\<close>

type_synonym int32 = "32 word"
type_synonym acc64 = "64 word"

text \<open>
  C shifts with the count taken from a run-time \<open>int\<close>. C leaves a negative count and a
  count of 32 or more undefined. The definitions return 0 there (sign fill for the
  arithmetic shift) only to be total; no result below depends on the value chosen for an
  out-of-range count.
\<close>

definition shl32 :: "int32 \<Rightarrow> int \<Rightarrow> int32" where
  "shl32 x n = (if 0 \<le> n \<and> n < 32 then push_bit (nat n) x else 0)"

definition lshr32 :: "int32 \<Rightarrow> int \<Rightarrow> int32" where
  "lshr32 x n = (if 0 \<le> n \<and> n < 32 then drop_bit (nat n) x else 0)"

definition ashr32 :: "int32 \<Rightarrow> int \<Rightarrow> int32" where
  "ashr32 x n =
     (if 0 \<le> n \<and> n < 32 then signed_drop_bit (nat n) x
      else if x <s 0 then - 1 else 0)"

text \<open>C division on \<open>int\<close> truncates towards zero.\<close>

definition sdiv32 :: "int32 \<Rightarrow> int32 \<Rightarrow> int32" where
  "sdiv32 x y = word_of_int (sint x sdiv sint y)"

subsection \<open>The three accumulator instructions\<close>

text \<open>
  Modelled from the spec: the semantics of the xCORE instruction \<open>maccs\<close>, which the
  repository only names inside \<open>asm\<close> statements. Section 4.1 step 1 and 2: the exact
  signed product of the two 32-bit operands is added to the 64-bit accumulator, whose
  initial high and low words are the last two operands of the \<open>asm\<close> statement.
\<close>

definition maccs :: "int32 \<Rightarrow> int32 \<Rightarrow> int32 \<Rightarrow> int32 \<Rightarrow> acc64" where
  "maccs hi lo x y = (push_bit 32 (scast hi) + ucast lo) + scast x * scast y"

text \<open>
  Modelled from the spec: the semantics of the xCORE instruction \<open>lsats\<close>. Section 4.1
  step 3: if the accumulator exceeds what a signed 32-bit integer can hold after the final
  shift by \<open>q\<close>, it is clamped to the minimum or maximum such value before shifting.
\<close>

definition lsats :: "acc64 \<Rightarrow> int \<Rightarrow> acc64" where
  "lsats acc q =
     (if 2 ^ nat (31 + q) - 1 <s acc then 2 ^ nat (31 + q) - 1
      else if acc <s - (2 ^ nat (31 + q)) then - (2 ^ nat (31 + q))
      else acc)"

text \<open>
  Modelled from the spec: the semantics of the xCORE instruction \<open>lextract\<close> with a field
  width of 32. Section 4.1 step 4: the accumulator is shifted right arithmetically by \<open>q\<close>
  bits and the low 32 bits are the result.
\<close>

definition lextract :: "acc64 \<Rightarrow> int \<Rightarrow> int32" where
  "lextract acc q = ucast (signed_drop_bit (nat q) acc)"

section \<open>Fixed-point multiply\<close>

definition lib_dsp_math_multiply :: "int32 \<Rightarrow> int32 \<Rightarrow> int \<Rightarrow> int32" where
  "lib_dsp_math_multiply input1_value input2_value q_format =
     (let acc = maccs 0 (shl32 1 (q_format - 1)) input1_value input2_value
      in lextract acc q_format)"

definition lib_dsp_math_multiply_sat :: "int32 \<Rightarrow> int32 \<Rightarrow> int \<Rightarrow> int32" where
  "lib_dsp_math_multiply_sat input1_value input2_value q_format =
     (let acc = maccs 0 (shl32 1 (q_format - 1)) input1_value input2_value;
          acc = lsats acc q_format
      in lextract acc q_format)"

text \<open>The signed 32-bit range as a clamp on mathematical integers.\<close>

definition sat32 :: "int \<Rightarrow> int" where
  "sat32 v = max (- (2 ^ 31)) (min (2 ^ 31 - 1) v)"

section \<open>Reciprocal\<close>

text \<open>
  Modelled from the spec: the value of \<open>Q31(0.9999999999)\<close>. The macro \<open>Q31\<close> is defined in
  the header \<open>lib_dsp_qformat.h\<close>, which \<open>lib_dsp_math.c\<close> includes and which is missing;
  section 4.2 describes the constant as the one closest to 1.0 that is representable at
  \<open>q = 31\<close>.
\<close>

definition Q31_0_9999999999 :: int32 where
  "Q31_0_9999999999 = 0x7FFFFFFF"

text \<open>One pass through the body of the loop in \<open>lib_dsp_math_reciprocal\<close>.\<close>

definition reciprocal_body :: "int32 \<Rightarrow> int \<Rightarrow> int32 \<Rightarrow> int32 \<Rightarrow> int32" where
  "reciprocal_body input_value q_format one result =
     (let acc = maccs one (shl32 1 (q_format - 1)) result (- input_value);
          acc = lsats acc q_format;
          temp = lextract acc q_format;
          acc = maccs 0 (shl32 1 (q_format - 1)) result temp;
          acc = lsats acc q_format;
          temp = lextract acc q_format
      in result + temp)"

text \<open>The loop \<open>for (int i = 0; i < 30; ++i)\<close>, entered with \<open>i = 0\<close>.\<close>

function reciprocal_for :: "nat \<Rightarrow> int32 \<Rightarrow> int \<Rightarrow> int32 \<Rightarrow> int32 \<Rightarrow> int32" where
  "reciprocal_for i input_value q_format one result =
     (if i < 30
      then reciprocal_for (i + 1) input_value q_format one
             (reciprocal_body input_value q_format one result)
      else result)"
  by pat_completeness auto
termination
  by (relation "measure (\<lambda>(i, _). 30 - i)") auto

declare reciprocal_for.simps [simp del]

definition lib_dsp_math_reciprocal :: "int32 \<Rightarrow> int \<Rightarrow> int32" where
  "lib_dsp_math_reciprocal input_value q_format =
     (let sign = input_value <s 0;
          one = shl32 1 (2 * q_format - 32);
          result = lshr32 0x80000000 (63 - 2 * q_format);
          input_value = (if sign then - input_value + 1 else input_value);
          result = (if q_format = 31 then Q31_0_9999999999
                    else reciprocal_for 0 input_value q_format one result);
          result = (if sign then - result else result)
      in result)"

section \<open>Inverse square root and square root\<close>

text \<open>One pass through the body of the loop in \<open>lib_dsp_math_invsqrroot\<close>.\<close>

definition invsqrroot_body :: "int32 \<Rightarrow> int \<Rightarrow> int32 \<Rightarrow> int32 \<Rightarrow> int32" where
  "invsqrroot_body input_value q_format one ah =
     (let acc = maccs 0 (shl32 1 (q_format - 1)) ah ah;
          acc = lsats acc q_format;
          result = lextract acc q_format;
          acc = maccs one (shl32 1 (q_format - 1)) result (- input_value);
          acc = lsats acc q_format;
          result = lextract acc q_format;
          acc = maccs 0 (shl32 1 (q_format - 1)) ah (sdiv32 result 2);
          acc = lsats acc q_format;
          result = lextract acc q_format
      in ah + result)"

text \<open>The loop \<open>for (int i = 0; i < 10; ++i)\<close>, entered with \<open>i = 0\<close>.\<close>

function invsqrroot_for :: "nat \<Rightarrow> int32 \<Rightarrow> int \<Rightarrow> int32 \<Rightarrow> int32 \<Rightarrow> int32" where
  "invsqrroot_for i input_value q_format one ah =
     (if i < 10
      then invsqrroot_for (i + 1) input_value q_format one
             (invsqrroot_body input_value q_format one ah)
      else ah)"
  by pat_completeness auto
termination
  by (relation "measure (\<lambda>(i, _). 10 - i)") auto

declare invsqrroot_for.simps [simp del]

definition lib_dsp_math_invsqrroot :: "int32 \<Rightarrow> int \<Rightarrow> int32" where
  "lib_dsp_math_invsqrroot input_value q_format =
     (let ah = shl32 1 q_format;
          one = shl32 1 (2 * q_format - 32)
      in invsqrroot_for 0 input_value q_format one ah)"

definition lib_dsp_math_squareroot :: "int32 \<Rightarrow> int \<Rightarrow> int32" where
  "lib_dsp_math_squareroot input_value q_format =
     (let ah = lib_dsp_math_invsqrroot input_value q_format;
          acc = maccs 0 0 ah input_value;
          acc = lsats acc q_format
      in lextract acc q_format)"

section \<open>Sine\<close>

definition ONE_OVER_HALFPI :: int32 where "ONE_OVER_HALFPI = 10680707"
definition r0 :: int32 where "r0 = - 11184804"
definition r1 :: int32 where "r1 = 2236879"
definition r2 :: int32 where "r2 = - 212681"
definition r3 :: int32 where "r3 = 11175"
definition PI2 :: int32 where "PI2 = 105414357"
definition MAXint :: int32 where "MAXint = 0x7FFFFFFF"

text \<open>
  A multiply that the function performs is recorded as its two operands and its result, in
  the order of evaluation, next to the value the function returns.
\<close>

type_synonym mul_event = "int32 \<times> int32 \<times> int32"

text \<open>
  \<open>sin_reduced\<close> is \<open>lib_dsp_math_sin\<close> from the comment \<open>Now rad >= 0\<close> onwards: it is
  entered with the angle and the sign that the first \<open>if\<close> has set.
\<close>

definition sin_reduced :: "int32 \<Rightarrow> int32 \<Rightarrow> int \<Rightarrow> int32 \<times> mul_event list" where
  "sin_reduced rad finalSign q_format =
     (let m0 = lib_dsp_math_multiply rad ONE_OVER_HALFPI q_format;
          modulo = ashr32 m0 q_format;
          rad1 = rad - ashr32 modulo 2 * PI2;
          finalSign = (if modulo AND 2 \<noteq> 0 then - finalSign else finalSign);
          rad2 = (if modulo AND 2 \<noteq> 0 then rad1 - ashr32 (PI2 + 1) 1 else rad1);
          rad3 = (if modulo AND 1 \<noteq> 0 then ashr32 (PI2 + 1) 1 - rad2 else rad2);
          sqr = lib_dsp_math_multiply (sdiv32 rad3 2) (sdiv32 rad3 2) q_format;
          m1 = lib_dsp_math_multiply r3 sqr q_format;
          m2 = lib_dsp_math_multiply (m1 + r2) sqr q_format;
          m3 = lib_dsp_math_multiply (m2 + r1) sqr q_format;
          m4 = lib_dsp_math_multiply (m3 + r0) sqr q_format;
          m5 = lib_dsp_math_multiply m4 rad3 q_format
      in ((rad3 + m5) * finalSign,
          [(rad, ONE_OVER_HALFPI, m0), (sdiv32 rad3 2, sdiv32 rad3 2, sqr), (r3, sqr, m1),
           (m1 + r2, sqr, m2), (m2 + r1, sqr, m3), (m3 + r0, sqr, m4), (m4, rad3, m5)]))"

definition sin_run :: "int32 \<Rightarrow> int \<Rightarrow> int32 \<times> mul_event list" where
  "sin_run rad q_format =
     (if rad <s 0 then sin_reduced (- rad) (- 1) q_format
      else sin_reduced rad 1 q_format)"

definition lib_dsp_math_sin :: "int32 \<Rightarrow> int \<Rightarrow> int32" where
  "lib_dsp_math_sin rad q_format = fst (sin_run rad q_format)"

definition sin_multiplies :: "int32 \<Rightarrow> int \<Rightarrow> mul_event list" where
  "sin_multiplies rad q_format = snd (sin_run rad q_format)"

section \<open>The Newton-Raphson schemes\<close>

text \<open>
  The saturating FixedMultiply of section 4.1 on mathematical integers: the exact product is
  added to what the accumulator holds beforehand (\<open>acc0\<close>, the rounding bias \<open>2^(q-1)\<close> in
  the section's own multiply), the sum is shifted right by \<open>q\<close> and clamped to the signed
  32-bit range.
\<close>

definition FixedMultiply_sat :: "int \<Rightarrow> int32 \<Rightarrow> int32 \<Rightarrow> int \<Rightarrow> int32" where
  "FixedMultiply_sat acc0 a b q = word_of_int (sat32 ((acc0 + sint a * sint b) div 2 ^ nat q))"

text \<open>
  The frame of section 4.2: a negative \<open>d\<close> is replaced by \<open>-d + 1\<close>, thirty steps are run
  from the start value, and the result is negated when \<open>d\<close> was negative. The step and the
  start value are parameters.
\<close>

definition reciprocal_scheme :: "(int32 \<Rightarrow> int32 \<Rightarrow> int32) \<Rightarrow> int32 \<Rightarrow> int32 \<Rightarrow> int32" where
  "reciprocal_scheme step x0 d =
     (let sign = d <s 0;
          d = (if sign then - d + 1 else d);
          x = (step d ^^ 30) x0
      in if sign then - x else x)"

text \<open>
  The step \<open>x \<leftarrow> x + x\<cdot>(1 - d\<cdot>x)\<close> as sections 4.1 and 4.2 word it: both products are
  saturating FixedMultiplies with the rounding bias \<open>2^(q-1)\<close>, and the inner one is
  subtracted from the raw value \<open>2^q\<close> of 1.0.
\<close>

definition reciprocal_step_spec :: "int \<Rightarrow> int32 \<Rightarrow> int32 \<Rightarrow> int32" where
  "reciprocal_step_spec q d x =
     x + FixedMultiply_sat (2 ^ nat (q - 1)) x
           (2 ^ nat q - FixedMultiply_sat (2 ^ nat (q - 1)) d x q) q"

text \<open>
  The same step with the inner term fused into one multiply-accumulate: the accumulator
  holds 1.0 at accumulator scale (\<open>2^(2q)\<close>) and the rounding bias, the product of \<open>x\<close>
  with the negated \<open>d\<close> is added, and the sum is clamped and shifted once.
\<close>

definition reciprocal_step_fused :: "int \<Rightarrow> int32 \<Rightarrow> int32 \<Rightarrow> int32" where
  "reciprocal_step_fused q d x =
     x + FixedMultiply_sat (2 ^ nat (q - 1)) x
           (FixedMultiply_sat (2 ^ nat (2 * q) + 2 ^ nat (q - 1)) x (- d) q) q"

text \<open>The frame of section 4.3: ten steps from the start value.\<close>

definition invsqrroot_scheme :: "(int32 \<Rightarrow> int32 \<Rightarrow> int32) \<Rightarrow> int32 \<Rightarrow> int32 \<Rightarrow> int32" where
  "invsqrroot_scheme step y0 d = (step d ^^ 10) y0"

text \<open>
  The step \<open>y \<leftarrow> y + y\<cdot>(1 - d\<cdot>y\<^sup>2)/2\<close> as sections 4.1 and 4.3 word it: the three products
  are saturating FixedMultiplies with the rounding bias \<open>2^(q-1)\<close>, \<open>d\<cdot>y\<^sup>2\<close> is subtracted
  from the raw value \<open>2^q\<close> of 1.0, and the difference is halved by truncating integer
  division before the last product.
\<close>

definition invsqrroot_step_spec :: "int \<Rightarrow> int32 \<Rightarrow> int32 \<Rightarrow> int32" where
  "invsqrroot_step_spec q d y =
     (let y2 = FixedMultiply_sat (2 ^ nat (q - 1)) y y q;
          c = 2 ^ nat q - FixedMultiply_sat (2 ^ nat (q - 1)) d y2 q
      in y + FixedMultiply_sat (2 ^ nat (q - 1)) y (word_of_int (sint c sdiv 2)) q)"

text \<open>
  The same step with \<open>1 - d\<cdot>y\<^sup>2\<close> fused into one multiply-accumulate onto 1.0 at
  accumulator scale.
\<close>

definition invsqrroot_step_fused :: "int \<Rightarrow> int32 \<Rightarrow> int32 \<Rightarrow> int32" where
  "invsqrroot_step_fused q d y =
     (let y2 = FixedMultiply_sat (2 ^ nat (q - 1)) y y q;
          c = FixedMultiply_sat (2 ^ nat (2 * q) + 2 ^ nat (q - 1)) y2 (- d) q
      in y + FixedMultiply_sat (2 ^ nat (q - 1)) y (word_of_int (sint c sdiv 2)) q)"

section \<open>Arithmetic of the accumulator\<close>

lemma sint32_bounds: "- (2 ^ 31) \<le> sint (x :: int32) \<and> sint x < 2 ^ 31"
  using sint_ge [of x] sint_lt [of x] by simp

lemma uint32_bounds: "0 \<le> uint (lo :: int32) \<and> uint lo < 2 ^ 32"
  using uint_lt2p [of lo] uint_nonnegative [of lo] by simp

lemma prod_bounds:
  fixes a b :: int
  assumes "- (2 ^ 31) \<le> a" "a < 2 ^ 31" "- (2 ^ 31) \<le> b" "b < 2 ^ 31"
  shows "- (2 ^ 62) \<le> a * b \<and> a * b \<le> 2 ^ 62"
proof -
  have "\<bar>a\<bar> \<le> 2 ^ 31" "\<bar>b\<bar> \<le> 2 ^ 31" using assms by auto
  then have "\<bar>a\<bar> * \<bar>b\<bar> \<le> 2 ^ 31 * 2 ^ 31" by (intro mult_mono) auto
  then have "\<bar>a * b\<bar> \<le> 2 ^ 62" by (simp add: abs_mult)
  then show ?thesis by auto
qed

lemma sint_prod_bounds:
  "- (2 ^ 62) \<le> sint (x :: int32) * sint (y :: int32) \<and> sint x * sint y \<le> 2 ^ 62"
  using prod_bounds sint32_bounds by blast

lemma maccs_word_of_int:
  "maccs hi lo x y = word_of_int (sint hi * 2 ^ 32 + uint lo + sint x * sint y)"
  unfolding maccs_def by (simp add: push_bit_eq_mult)

lemma maccs_sint:
  assumes "- (2 ^ 63) \<le> sint hi * 2 ^ 32 + uint lo + sint x * sint y"
    and "sint hi * 2 ^ 32 + uint lo + sint x * sint y < 2 ^ 63"
  shows "sint (maccs hi lo x y) = sint hi * 2 ^ 32 + uint lo + sint x * sint y"
proof -
  have "sint (maccs hi lo x y) = signed_take_bit 63 (sint hi * 2 ^ 32 + uint lo + sint x * sint y)"
    by (simp only: maccs_word_of_int sint_sbintrunc') simp
  also have "\<dots> = sint hi * 2 ^ 32 + uint lo + sint x * sint y"
    by (rule signed_take_bit_int_eq_self [OF assms])
  finally show ?thesis .
qed

lemma pow2_le_62: "n \<le> 62 \<Longrightarrow> (2::int) ^ n \<le> 2 ^ 62"
  by (rule power_increasing) simp_all

lemma sint_pow2m1_64:
  assumes "n \<le> 62"
  shows "sint (2 ^ n - 1 :: acc64) = 2 ^ n - 1"
proof -
  have le: "(2::int) ^ n \<le> 2 ^ 62" by (rule pow2_le_62 [OF assms])
  have pos: "(0::int) < 2 ^ n" by simp
  have c: "(2::int) ^ 62 < 2 ^ 63" "(0::int) < 2 ^ 63" by simp_all
  have "(2 ^ n - 1 :: acc64) = word_of_int (2 ^ n - 1)" by simp
  then have "sint (2 ^ n - 1 :: acc64) = signed_take_bit 63 (2 ^ n - 1)"
    by (simp only: sint_sbintrunc') simp
  also have "\<dots> = 2 ^ n - 1"
  proof (rule signed_take_bit_int_eq_self)
    show "- (2 ^ 63) \<le> (2::int) ^ n - 1" using pos c by linarith
    show "(2::int) ^ n - 1 < 2 ^ 63" using le c by linarith
  qed
  finally show ?thesis .
qed

lemma sint_neg_pow2_64:
  assumes "n \<le> 62"
  shows "sint (- (2 ^ n) :: acc64) = - (2 ^ n)"
proof -
  have le: "(2::int) ^ n \<le> 2 ^ 62" by (rule pow2_le_62 [OF assms])
  have pos: "(0::int) < 2 ^ n" by simp
  have c: "(2::int) ^ 62 < 2 ^ 63" "(0::int) < 2 ^ 63" by simp_all
  have "(- (2 ^ n) :: acc64) = word_of_int (- (2 ^ n))" by simp
  then have "sint (- (2 ^ n) :: acc64) = signed_take_bit 63 (- (2 ^ n))"
    by (simp only: sint_sbintrunc') simp
  also have "\<dots> = - (2 ^ n)"
  proof (rule signed_take_bit_int_eq_self)
    show "- (2 ^ 63) \<le> - ((2::int) ^ n)" using le c by linarith
    show "- ((2::int) ^ n) < 2 ^ 63" using pos c by linarith
  qed
  finally show ?thesis .
qed

lemma lsats_sint:
  assumes "1 \<le> q" "q \<le> 31"
  shows "sint (lsats acc q) = max (- (2 ^ nat (31 + q))) (min (2 ^ nat (31 + q) - 1) (sint acc))"
proof -
  have n: "nat (31 + q) \<le> 62" using assms by simp
  show ?thesis
    unfolding lsats_def
    by (simp only: word_sless_alt sint_pow2m1_64 [OF n] sint_neg_pow2_64 [OF n] if_distrib [of sint]
        max_def min_def split: if_split) auto
qed

lemma lextract_word_of_int: "lextract acc q = word_of_int (sint acc div 2 ^ nat q)"
proof -
  have same: "(ucast :: acc64 \<Rightarrow> int32) = scast"
    by (rule down_cast_same) (simp add: is_down)
  have "(ucast (signed_drop_bit (nat q) acc) :: int32) = scast (signed_drop_bit (nat q) acc)"
    by (simp only: same)
  also have "\<dots> = word_of_int (sint (signed_drop_bit (nat q) acc))"
    by (rule scast_eq)
  also have "\<dots> = word_of_int (sint acc div 2 ^ nat q)"
    by (simp only: sint_signed_drop_bit_eq drop_bit_eq_div)
  finally show ?thesis unfolding lextract_def .
qed
lemma le_div_pos:
  fixes v k P :: int
  assumes "0 < P" "k * P \<le> v"
  shows "k \<le> v div P"
proof -
  have "(k * P) div P \<le> v div P" by (rule zdiv_mono1 [OF assms(2) assms(1)])
  then show ?thesis using assms(1) by simp
qed

lemma div_le_pos:
  fixes v k P :: int
  assumes "0 < P" "v < (k + 1) * P"
  shows "v div P \<le> k"
proof -
  have "v \<le> k * P + (P - 1)" using assms(2) by (simp add: algebra_simps)
  then have "v div P \<le> (k * P + (P - 1)) div P" by (rule zdiv_mono1 [OF _ assms(1)])
  also have "(k * P + (P - 1)) div P = k"
    by (rule int_div_pos_eq [of _ _ _ "P - 1"]) (use assms(1) in \<open>simp_all add: algebra_simps\<close>)
  finally show ?thesis .
qed

lemma sat_div:
  fixes v :: int
  shows "max (- (2 ^ (31 + n))) (min (2 ^ (31 + n) - 1) v) div 2 ^ n = sat32 (v div 2 ^ n)"
proof -
  define P :: int where "P = 2 ^ n"
  define M :: int where "M = 2 ^ 31"
  have P: "0 < P" by (simp add: P_def)
  have M: "0 < M" by (simp add: M_def)
  have A: "(2::int) ^ (31 + n) = M * P" by (simp add: P_def M_def power_add)
  have MP: "0 < M * P" using P M by simp
  have top: "(M * P - 1) div P = M - 1"
    by (rule int_div_pos_eq [of _ _ _ "P - 1"]) (use P in \<open>simp_all add: algebra_simps\<close>)
  have "((- M) * P) div P = - M"
    by (rule nonzero_mult_div_cancel_right) (use P in simp)
  then have bot: "(- (M * P)) div P = - M" by (simp only: mult_minus_left)
  consider (hi) "M * P - 1 < v" | (lo) "v < - (M * P)" | (mid) "- (M * P) \<le> v" "v \<le> M * P - 1"
    by linarith
  then have "max (- (M * P)) (min (M * P - 1) v) div P = max (- M) (min (M - 1) (v div P))"
  proof cases
    case hi
    then have "M * P \<le> v" by simp
    then have d: "M \<le> v div P" by (rule le_div_pos [OF P])
    have "min (M * P - 1) v = M * P - 1" using hi by (intro min_absorb1) simp
    moreover have "max (- (M * P)) (M * P - 1) = M * P - 1" using MP by (intro max_absorb2) simp
    moreover have "min (M - 1) (v div P) = M - 1" using d by (intro min_absorb1) simp
    moreover have "max (- M) (M - 1) = M - 1" using M by (intro max_absorb2) simp
    ultimately show ?thesis using top by simp
  next
    case lo
    then have "v < (- M - 1 + 1) * P" by simp
    then have d: "v div P \<le> - M - 1" by (rule div_le_pos [OF P])
    have "min (M * P - 1) v = v" using lo MP by (intro min_absorb2) simp
    moreover have "max (- (M * P)) v = - (M * P)" using lo by (intro max_absorb1) simp
    moreover have "min (M - 1) (v div P) = v div P" using d M by (intro min_absorb2) simp
    moreover have "max (- M) (v div P) = - M" using d by (intro max_absorb1) simp
    ultimately show ?thesis using bot by simp
  next
    case mid
    have "(- M) * P \<le> v" using mid(1) by simp
    then have l: "- M \<le> v div P" by (rule le_div_pos [OF P])
    have "v < (M - 1 + 1) * P" using mid(2) by simp
    then have u: "v div P \<le> M - 1" by (rule div_le_pos [OF P])
    have "min (M * P - 1) v = v" using mid(2) by (intro min_absorb2)
    moreover have "max (- (M * P)) v = v" using mid(1) by (intro max_absorb2)
    moreover have "min (M - 1) (v div P) = v div P" using u by (intro min_absorb2)
    moreover have "max (- M) (v div P) = v div P" using l by (intro max_absorb2)
    ultimately show ?thesis by simp
  qed
  then show ?thesis unfolding sat32_def A by (simp only: P_def M_def)
qed

lemma shl32_one_uint:
  assumes "0 \<le> n" "n < 32"
  shows "uint (shl32 1 n) = 2 ^ nat n"
proof -
  have m: "nat n < 32" using assms by simp
  have nz: "(2 :: int32) ^ nat n \<noteq> 0" using m by simp
  have "shl32 1 n = 2 ^ nat n" using assms by (simp add: shl32_def)
  moreover have "uint ((2 :: int32) ^ nat n) = 2 ^ nat n"
    by (rule uint_2p) (use nz in \<open>simp add: word_gt_0\<close>)
  ultimately show ?thesis by simp
qed

lemma sat32_bounds: "- (2 ^ 31) \<le> sat32 v \<and> sat32 v < 2 ^ 31"
  by (simp add: sat32_def max_def min_def)

lemma sint_word_of_int_sat32: "sint (word_of_int (sat32 v) :: int32) = sat32 v"
proof -
  have "sint (word_of_int (sat32 v) :: int32) = signed_take_bit 31 (sat32 v)"
    by (simp only: sint_sbintrunc') simp
  also have "\<dots> = sat32 v"
    using sat32_bounds [of v] by (intro signed_take_bit_int_eq_self) simp_all
  finally show ?thesis .
qed

lemma sat_extract_word:
  assumes "1 \<le> q" "q \<le> 31"
  shows "lextract (lsats acc q) q = word_of_int (sat32 (sint acc div 2 ^ nat q))"
proof -
  have e: "nat (31 + q) = 31 + nat q" using assms by simp
  show ?thesis
    by (simp only: lextract_word_of_int lsats_sint [OF assms] e sat_div)
qed

lemma sat_extract_sint:
  assumes "1 \<le> q" "q \<le> 31"
  shows "sint (lextract (lsats acc q) q) = sat32 (sint acc div 2 ^ nat q)"
  by (simp only: sat_extract_word [OF assms] sint_word_of_int_sat32)

lemma pow2_le_30: "n \<le> 30 \<Longrightarrow> (2::int) ^ n \<le> 2 ^ 30"
  by (rule power_increasing) simp_all

lemma mul_acc_sint:
  assumes "1 \<le> q" "q \<le> 31"
  shows "sint (maccs 0 (shl32 1 (q - 1)) a b) = sint a * sint b + 2 ^ nat (q - 1)"
proof -
  have u: "uint (shl32 1 (q - 1)) = 2 ^ nat (q - 1)"
    using assms by (intro shl32_one_uint) simp_all
  have b: "(2::int) ^ nat (q - 1) \<le> 2 ^ 30" using assms by (intro pow2_le_30) simp
  have p: "(0::int) < 2 ^ nat (q - 1)" by simp
  have pr: "- (2 ^ 62) \<le> sint a * sint b \<and> sint a * sint b \<le> 2 ^ 62"
    by (rule sint_prod_bounds)
  have c: "(2::int) ^ 62 + 2 ^ 30 < 2 ^ 63" "- ((2::int) ^ 63) \<le> - (2 ^ 62)" by simp_all
  have z: "sint (0 :: int32) * 2 ^ 32 + uint (shl32 1 (q - 1)) + sint a * sint b
           = sint a * sint b + 2 ^ nat (q - 1)"
    unfolding u by simp
  have lo: "- (2 ^ 63) \<le> sint a * sint b + (2::int) ^ nat (q - 1)"
    using p pr c by linarith
  have hi: "sint a * sint b + (2::int) ^ nat (q - 1) < 2 ^ 63"
    using b pr c by linarith
  have "sint (maccs 0 (shl32 1 (q - 1)) a b)
        = sint (0 :: int32) * 2 ^ 32 + uint (shl32 1 (q - 1)) + sint a * sint b"
    by (rule maccs_sint) (simp_all only: z lo hi)
  then show ?thesis by (simp only: z)
qed

lemma multiply_word:
  assumes "1 \<le> q" "q \<le> 31"
  shows "lib_dsp_math_multiply a b q
         = word_of_int ((sint a * sint b + 2 ^ nat (q - 1)) div 2 ^ nat q)"
  unfolding lib_dsp_math_multiply_def Let_def
  by (simp only: lextract_word_of_int mul_acc_sint [OF assms])

lemma multiply_sat_word:
  assumes "1 \<le> q" "q \<le> 31"
  shows "lib_dsp_math_multiply_sat a b q
         = word_of_int (sat32 ((sint a * sint b + 2 ^ nat (q - 1)) div 2 ^ nat q))"
  unfolding lib_dsp_math_multiply_sat_def Let_def
  by (simp only: sat_extract_word [OF assms] mul_acc_sint [OF assms])

lemma multiply_sat_sint:
  assumes "1 \<le> q" "q \<le> 31"
  shows "sint (lib_dsp_math_multiply_sat a b q)
         = sat32 ((sint a * sint b + 2 ^ nat (q - 1)) div 2 ^ nat q)"
  by (simp only: multiply_sat_word [OF assms] sint_word_of_int_sat32)

section \<open>Properties of the multiplies\<close>

lemma multiply_sat_FixedMultiply:
  assumes "1 \<le> q" "q \<le> 31"
  shows "lib_dsp_math_multiply_sat a b q = FixedMultiply_sat (2 ^ nat (q - 1)) a b q"
  unfolding FixedMultiply_sat_def
  by (simp only: multiply_sat_word [OF assms] add.commute)

lemma bias_div_zero:
  assumes "1 \<le> q"
  shows "(2::int) ^ nat (q - 1) div 2 ^ nat q = 0"
proof -
  have "nat q = Suc (nat (q - 1))" using assms by simp
  then have "(2::int) ^ nat (q - 1) < 2 ^ nat q" by simp
  then show ?thesis by simp
qed

lemma sat32_id: "- (2 ^ 31) \<le> v \<Longrightarrow> v \<le> 2 ^ 31 - 1 \<Longrightarrow> sat32 v = v"
  by (simp add: sat32_def)

text \<open>
  C3. For every valid Q-format the saturating multiply returns the exact rounded shifted
  product clamped to the signed 32-bit range, so its result lies in that range, and the
  non-saturating multiply returns the same word whenever the rounded shifted product is
  itself representable in 32 bits.
\<close>

theorem multiply_sat_range_and_agreement:
  assumes "1 \<le> q" "q \<le> 31"
  shows "sint (lib_dsp_math_multiply_sat a b q)
           = sat32 ((sint a * sint b + 2 ^ nat (q - 1)) div 2 ^ nat q)
         \<and> - (2 ^ 31) \<le> sint (lib_dsp_math_multiply_sat a b q)
         \<and> sint (lib_dsp_math_multiply_sat a b q) \<le> 2 ^ 31 - 1
         \<and> (- (2 ^ 31) \<le> (sint a * sint b + 2 ^ nat (q - 1)) div 2 ^ nat q
              \<and> (sint a * sint b + 2 ^ nat (q - 1)) div 2 ^ nat q \<le> 2 ^ 31 - 1
            \<longrightarrow> lib_dsp_math_multiply a b q = lib_dsp_math_multiply_sat a b q)"
proof -
  let ?E = "(sint a * sint b + 2 ^ nat (q - 1)) div 2 ^ nat q"
  have v: "sint (lib_dsp_math_multiply_sat a b q) = sat32 ?E"
    by (rule multiply_sat_sint [OF assms])
  have r: "- (2 ^ 31) \<le> sat32 ?E \<and> sat32 ?E \<le> 2 ^ 31 - 1"
    using sat32_bounds [of ?E] by simp
  have e: "lib_dsp_math_multiply a b q = lib_dsp_math_multiply_sat a b q"
    if "- (2 ^ 31) \<le> ?E" "?E \<le> 2 ^ 31 - 1"
    by (simp only: multiply_word [OF assms] multiply_sat_word [OF assms] sat32_id [OF that])
  show ?thesis using v r e by simp
qed

theorem multiply_sat_range_and_agreement_witness:
  "sint (lib_dsp_math_multiply_sat 3 5 1) = 8
   \<and> lib_dsp_math_multiply 3 5 1 = lib_dsp_math_multiply_sat 3 5 1"
  using multiply_sat_range_and_agreement [of 1 3 5] by (simp add: sat32_def)

text \<open>
  C4. For every valid Q-format the non-saturating multiply returns the low 32 bits of the
  exact product plus the rounding bias \<open>2^(q-1)\<close>, shifted right arithmetically by \<open>q\<close>:
  the value is reduced modulo \<open>2^32\<close> and never clamped.
\<close>

theorem multiply_wraps:
  assumes "1 \<le> q" "q \<le> 31"
  shows "lib_dsp_math_multiply a b q
           = word_of_int ((sint a * sint b + 2 ^ nat (q - 1)) div 2 ^ nat q)
         \<and> uint (lib_dsp_math_multiply a b q)
           = ((sint a * sint b + 2 ^ nat (q - 1)) div 2 ^ nat q) mod 2 ^ 32"
proof -
  have w: "lib_dsp_math_multiply a b q
           = word_of_int ((sint a * sint b + 2 ^ nat (q - 1)) div 2 ^ nat q)"
    by (rule multiply_word [OF assms])
  have "uint (word_of_int ((sint a * sint b + 2 ^ nat (q - 1)) div 2 ^ nat q) :: int32)
        = ((sint a * sint b + 2 ^ nat (q - 1)) div 2 ^ nat q) mod 2 ^ 32"
    by (simp add: uint_word_of_int)
  then show ?thesis using w by simp
qed

theorem multiply_wraps_witness:
  "uint (lib_dsp_math_multiply 16777216 10680707 16) = 2734260992 mod 2 ^ 32
   \<and> lib_dsp_math_multiply 16777216 10680707 16 = word_of_int 2734260992"
  using multiply_wraps [of 16 16777216 10680707] by simp

text \<open>
  C10. Zero annihilates both multiplies at every valid Q-format: with a zero operand the
  accumulator holds only the rounding bias \<open>2^(q-1)\<close>, which the shift by \<open>q\<close> removes.
\<close>

theorem multiply_zero_left:
  assumes "1 \<le> q" "q \<le> 31"
  shows "lib_dsp_math_multiply 0 b q = 0 \<and> lib_dsp_math_multiply_sat 0 b q = 0"
proof -
  have z: "(sint (0 :: int32) * sint b + 2 ^ nat (q - 1)) div 2 ^ nat q = 0"
    using bias_div_zero [OF assms(1)] by simp
  have s: "sat32 0 = 0" by (simp add: sat32_def)
  show ?thesis
    by (simp only: multiply_word [OF assms] multiply_sat_word [OF assms] z s) simp
qed

theorem multiply_zero_left_witness:
  "lib_dsp_math_multiply 0 12345 28 = 0 \<and> lib_dsp_math_multiply_sat 0 12345 28 = 0"
  using multiply_zero_left [of 28 12345] by simp

section \<open>Square root and the reciprocal at format 31\<close>

lemma mac_sat_word:
  assumes "1 \<le> q" "q \<le> 31"
    and "- (2 ^ 63) \<le> sint h * 2 ^ 32 + uint l + sint x * sint y"
    and "sint h * 2 ^ 32 + uint l + sint x * sint y < 2 ^ 63"
  shows "lextract (lsats (maccs h l x y) q) q
         = FixedMultiply_sat (sint h * 2 ^ 32 + uint l) x y q"
  unfolding FixedMultiply_sat_def
  by (simp only: sat_extract_word [OF assms(1,2)] maccs_sint [OF assms(3,4)])

lemma squareroot_FixedMultiply:
  assumes "1 \<le> q" "q \<le> 31"
  shows "lib_dsp_math_squareroot d q = FixedMultiply_sat 0 (lib_dsp_math_invsqrroot d q) d q"
proof -
  let ?y = "lib_dsp_math_invsqrroot d q"
  have pr: "- (2 ^ 62) \<le> sint ?y * sint d \<and> sint ?y * sint d \<le> 2 ^ 62"
    by (rule sint_prod_bounds)
  have c: "(2::int) ^ 62 < 2 ^ 63" "- ((2::int) ^ 63) \<le> - (2 ^ 62)" by simp_all
  have z: "sint (0 :: int32) * 2 ^ 32 + uint (0 :: int32) + sint ?y * sint d = sint ?y * sint d"
    by simp
  have lo: "- (2 ^ 63) \<le> sint ?y * sint d" using pr c by linarith
  have hi: "sint ?y * sint d < 2 ^ 63" using pr c by linarith
  have "lextract (lsats (maccs 0 0 ?y d) q) q
        = FixedMultiply_sat (sint (0 :: int32) * 2 ^ 32 + uint (0 :: int32)) ?y d q"
    by (rule mac_sat_word [OF assms]) (simp_all only: z lo hi)
  then show ?thesis
    unfolding lib_dsp_math_squareroot_def Let_def by simp
qed

text \<open>
  C7. The square root is one saturating fixed-point multiply of the inverse square root by
  the input at format \<open>q\<close> whose accumulator starts from zero, so the shifted product is
  truncated; the general saturating multiply starts from the rounding bias \<open>2^(q-1)\<close>.
\<close>

theorem squareroot_zero_bias:
  assumes "1 \<le> q" "q \<le> 31"
  shows "lib_dsp_math_squareroot d q = FixedMultiply_sat 0 (lib_dsp_math_invsqrroot d q) d q
         \<and> sint (lib_dsp_math_squareroot d q)
           = sat32 ((sint (lib_dsp_math_invsqrroot d q) * sint d) div 2 ^ nat q)
         \<and> sint (lib_dsp_math_multiply_sat (lib_dsp_math_invsqrroot d q) d q)
           = sat32 ((sint (lib_dsp_math_invsqrroot d q) * sint d + 2 ^ nat (q - 1)) div 2 ^ nat q)"
proof -
  have a: "lib_dsp_math_squareroot d q = FixedMultiply_sat 0 (lib_dsp_math_invsqrroot d q) d q"
    by (rule squareroot_FixedMultiply [OF assms])
  have b: "sint (FixedMultiply_sat 0 (lib_dsp_math_invsqrroot d q) d q)
           = sat32 ((sint (lib_dsp_math_invsqrroot d q) * sint d) div 2 ^ nat q)"
    unfolding FixedMultiply_sat_def by (simp only: sint_word_of_int_sat32 add_0)
  show ?thesis using a b multiply_sat_sint [OF assms] by simp
qed

theorem squareroot_zero_bias_witness:
  "lib_dsp_math_squareroot 0x40000000 28
   = FixedMultiply_sat 0 (lib_dsp_math_invsqrroot 0x40000000 28) 0x40000000 28"
  using squareroot_zero_bias [of 28 "0x40000000"] by simp

text \<open>C8. The square root of zero is exactly zero at every valid Q-format.\<close>

theorem squareroot_of_zero:
  assumes "1 \<le> q" "q \<le> 31"
  shows "lib_dsp_math_squareroot 0 q = 0"
proof -
  have "FixedMultiply_sat 0 (lib_dsp_math_invsqrroot 0 q) 0 q = 0"
    unfolding FixedMultiply_sat_def by (simp add: sat32_def)
  then show ?thesis by (simp only: squareroot_FixedMultiply [OF assms])
qed

theorem squareroot_of_zero_witness: "lib_dsp_math_squareroot 0 28 = 0"
  using squareroot_of_zero [of 28] by simp

lemma reciprocal_q31:
  "lib_dsp_math_reciprocal d 31 = (if d <s 0 then - Q31_0_9999999999 else Q31_0_9999999999)"
  unfolding lib_dsp_math_reciprocal_def Let_def by simp

text \<open>
  C2. At \<open>q = 31\<close> the reciprocal bypasses the loop and returns the constant closest to
  1.0 for every input that is not negative, and the negation of that constant for every
  negative input.
\<close>

theorem reciprocal_q31_constant:
  "lib_dsp_math_reciprocal d 31 = (if d <s 0 then - Q31_0_9999999999 else Q31_0_9999999999)
   \<and> sint Q31_0_9999999999 = 2 ^ 31 - 1"
proof -
  have bypass: "lib_dsp_math_reciprocal d 31
                = (if d <s 0 then - Q31_0_9999999999 else Q31_0_9999999999)"
    unfolding lib_dsp_math_reciprocal_def Let_def by simp
  have near_one: "sint Q31_0_9999999999 = 2 ^ 31 - 1"
    by (simp add: Q31_0_9999999999_def)
  show ?thesis using bypass near_one by (rule conjI)
qed

text \<open>
  The claim that one and the same constant is returned for positive and negative inputs
  fails at \<open>d = -1\<close>.
\<close>

theorem reciprocal_q31_negative_counterexample:
  "lib_dsp_math_reciprocal 1 31 = Q31_0_9999999999
   \<and> lib_dsp_math_reciprocal (- 1) 31 \<noteq> lib_dsp_math_reciprocal 1 31"
  by (simp only: reciprocal_q31) (simp add: Q31_0_9999999999_def word_sless_alt)

section \<open>The reciprocal loop\<close>

lemma mul_sat_triple:
  assumes "1 \<le> q" "q \<le> 31"
  shows "lextract (lsats (maccs 0 (shl32 1 (q - 1)) a b) q) q
         = FixedMultiply_sat (2 ^ nat (q - 1)) a b q"
  using multiply_sat_FixedMultiply [OF assms, of a b]
  unfolding lib_dsp_math_multiply_sat_def Let_def .

lemma shl32_one_sint:
  assumes "0 \<le> n" "n \<le> 30"
  shows "sint (shl32 1 n) = 2 ^ nat n"
proof -
  have le: "(2::int) ^ nat n \<le> 2 ^ 30" using assms by (intro pow2_le_30) simp
  have c: "(2::int) ^ 30 < 2 ^ 31" "- ((2::int) ^ 31) \<le> 0" by simp_all
  have p: "(0::int) < 2 ^ nat n" by simp
  have "shl32 1 n = word_of_int (2 ^ nat n)" using assms by (simp add: shl32_def)
  then have "sint (shl32 1 n) = signed_take_bit 31 (2 ^ nat n)"
    by (simp only: sint_sbintrunc') simp
  also have "\<dots> = 2 ^ nat n"
  proof (rule signed_take_bit_int_eq_self)
    show "- (2 ^ 31) \<le> (2::int) ^ nat n" using p c by linarith
    show "(2::int) ^ nat n < 2 ^ 31" using le c by linarith
  qed
  finally show ?thesis .
qed

lemma one_acc:
  assumes "16 \<le> q" "q \<le> 31"
  shows "sint (shl32 1 (2 * q - 32)) * 2 ^ 32 = 2 ^ nat (2 * q)"
proof -
  have "sint (shl32 1 (2 * q - 32)) = 2 ^ nat (2 * q - 32)"
    using assms by (intro shl32_one_sint) simp_all
  moreover have "nat (2 * q) = nat (2 * q - 32) + 32" using assms by simp
  ultimately show ?thesis by (simp only: power_add)
qed

lemma pow2_le_60: "n \<le> 60 \<Longrightarrow> (2::int) ^ n \<le> 2 ^ 60"
  by (rule power_increasing) simp_all

lemma one_mac_word:
  assumes "16 \<le> q" "q \<le> 31"
    and "- (2 ^ 62) \<le> sint x * sint y"
    and "2 ^ nat (2 * q) + sint x * sint y < 2 ^ 63 - 2 ^ 30"
  shows "lextract (lsats (maccs (shl32 1 (2 * q - 32)) (shl32 1 (q - 1)) x y) q) q
         = FixedMultiply_sat (2 ^ nat (2 * q) + 2 ^ nat (q - 1)) x y q"
proof -
  have q: "1 \<le> q" using assms(1) by simp
  have u: "uint (shl32 1 (q - 1)) = 2 ^ nat (q - 1)"
    using assms by (intro shl32_one_uint) simp_all
  have b: "(2::int) ^ nat (q - 1) \<le> 2 ^ 30" using assms by (intro pow2_le_30) simp
  have p: "(0::int) < 2 ^ nat (q - 1)" "(0::int) < 2 ^ nat (2 * q)" by simp_all
  have c: "- ((2::int) ^ 63) \<le> - (2 ^ 62)" by simp
  have h: "sint (shl32 1 (2 * q - 32)) * 2 ^ 32 + uint (shl32 1 (q - 1))
           = 2 ^ nat (2 * q) + 2 ^ nat (q - 1)"
    by (simp only: one_acc [OF assms(1,2)] u)
  have lo: "- (2 ^ 63) \<le> 2 ^ nat (2 * q) + 2 ^ nat (q - 1) + sint x * sint y"
    using p c assms(3) by linarith
  have hi: "2 ^ nat (2 * q) + 2 ^ nat (q - 1) + sint x * sint y < 2 ^ 63"
    using b assms(4) by linarith
  have "lextract (lsats (maccs (shl32 1 (2 * q - 32)) (shl32 1 (q - 1)) x y) q) q
        = FixedMultiply_sat (sint (shl32 1 (2 * q - 32)) * 2 ^ 32 + uint (shl32 1 (q - 1))) x y q"
    by (rule mac_sat_word [OF q assms(2)]) (simp_all only: h lo hi)
  then show ?thesis by (simp only: h)
qed

lemma reciprocal_body_fused:
  assumes "16 \<le> q" "q \<le> 30"
  shows "reciprocal_body d q (shl32 1 (2 * q - 32)) x = reciprocal_step_fused q d x"
proof -
  have q: "1 \<le> q" "q \<le> 31" using assms by simp_all
  have pr: "- (2 ^ 62) \<le> sint x * sint (- d) \<and> sint x * sint (- d) \<le> 2 ^ 62"
    by (rule sint_prod_bounds)
  have le: "(2::int) ^ nat (2 * q) \<le> 2 ^ 60" using assms by (intro pow2_le_60) simp
  have c: "(2::int) ^ 60 + 2 ^ 62 < 2 ^ 63 - 2 ^ 30" by simp
  have hi: "2 ^ nat (2 * q) + sint x * sint (- d) < 2 ^ 63 - 2 ^ 30"
    using le pr c by linarith
  have t: "lextract (lsats (maccs (shl32 1 (2 * q - 32)) (shl32 1 (q - 1)) x (- d)) q) q
           = FixedMultiply_sat (2 ^ nat (2 * q) + 2 ^ nat (q - 1)) x (- d) q"
    using pr hi by (intro one_mac_word [OF assms(1) q(2)]) simp_all
  show ?thesis
    unfolding reciprocal_body_def reciprocal_step_fused_def Let_def
    by (simp only: t mul_sat_triple [OF q])
qed

lemma reciprocal_for_funpow:
  "reciprocal_for i d q one x = (reciprocal_body d q one ^^ (30 - i)) x"
proof (induction i d q one x rule: reciprocal_for.induct)
  case (1 i d q one x)
  show ?case
  proof (cases "i < 30")
    case True
    then have s: "30 - i = Suc (30 - (i + 1))" by simp
    have "reciprocal_for i d q one x
          = reciprocal_for (i + 1) d q one (reciprocal_body d q one x)"
      using True by (subst reciprocal_for.simps) simp
    also have "\<dots> = (reciprocal_body d q one ^^ (30 - (i + 1))) (reciprocal_body d q one x)"
      by (rule 1 [OF True])
    also have "\<dots> = (reciprocal_body d q one ^^ (30 - i)) x"
      by (simp only: s funpow_Suc_right o_apply)
    finally show ?thesis .
  next
    case False
    then show ?thesis by (subst reciprocal_for.simps) simp
  qed
qed

lemma reciprocal_start:
  assumes "16 \<le> q" "q \<le> 31"
  shows "lshr32 0x80000000 (63 - 2 * q) = 2 ^ nat (2 * q - 32)"
proof -
  have n: "nat (63 - 2 * q) \<le> 31" using assms by simp
  have e: "31 - nat (63 - 2 * q) = nat (2 * q - 32)" using assms by simp
  have "(0x80000000 :: int32) = 2 ^ 31" by simp
  then have "lshr32 0x80000000 (63 - 2 * q) = drop_bit (nat (63 - 2 * q)) (2 ^ 31 :: int32)"
    using assms by (simp add: lshr32_def)
  also have "\<dots> = 2 ^ (31 - nat (63 - 2 * q))"
    using n by (simp only: drop_bit_exp_eq) (simp add: possible_bit_def)
  finally show ?thesis by (simp only: e)
qed

lemma funpow_cong_fun:
  fixes f g :: "'a \<Rightarrow> 'a"
  assumes "\<And>x. f x = g x"
  shows "(f ^^ n) x = (g ^^ n) x"
  by (induction n arbitrary: x) (simp_all add: assms)

lemma reciprocal_loop_fused:
  assumes "16 \<le> q" "q \<le> 30"
  shows "reciprocal_for 0 e q (shl32 1 (2 * q - 32)) x = (reciprocal_step_fused q e ^^ 30) x"
  by (simp only: reciprocal_for_funpow diff_zero)
     (rule funpow_cong_fun, rule reciprocal_body_fused [OF assms])

text \<open>
  The thirty steps for \<open>d = 3\<close> at \<open>q = 16\<close> from the start value 1, with the fused inner
  term and with the inner term as the specification words it. The two runs part at the
  seventeenth step.
\<close>

lemma reciprocal_fused_chain_3_16:
  "reciprocal_step_fused 16 3 1 = 2"
  "reciprocal_step_fused 16 3 2 = 4"
  "reciprocal_step_fused 16 3 4 = 8"
  "reciprocal_step_fused 16 3 8 = 16"
  "reciprocal_step_fused 16 3 16 = 32"
  "reciprocal_step_fused 16 3 32 = 64"
  "reciprocal_step_fused 16 3 64 = 128"
  "reciprocal_step_fused 16 3 128 = 256"
  "reciprocal_step_fused 16 3 256 = 512"
  "reciprocal_step_fused 16 3 512 = 1024"
  "reciprocal_step_fused 16 3 1024 = 2048"
  "reciprocal_step_fused 16 3 2048 = 4096"
  "reciprocal_step_fused 16 3 4096 = 8192"
  "reciprocal_step_fused 16 3 8192 = 16384"
  "reciprocal_step_fused 16 3 16384 = 32768"
  "reciprocal_step_fused 16 3 32768 = 65536"
  "reciprocal_step_fused 16 3 65536 = 131069"
  "reciprocal_step_fused 16 3 131069 = 262126"
  "reciprocal_step_fused 16 3 262126 = 524204"
  "reciprocal_step_fused 16 3 524204 = 1048216"
  "reciprocal_step_fused 16 3 1048216 = 2095664"
  "reciprocal_step_fused 16 3 2095664 = 4188258"
  "reciprocal_step_fused 16 3 4188258 = 8364246"
  "reciprocal_step_fused 16 3 8364246 = 16679610"
  "reciprocal_step_fused 16 3 16679610 = 33164774"
  "reciprocal_step_fused 16 3 33164774 = 65561358"
  "reciprocal_step_fused 16 3 65561358 = 128120555"
  "reciprocal_step_fused 16 3 128120555 = 244775243"
  "reciprocal_step_fused 16 3 244775243 = 447700105"
  "reciprocal_step_fused 16 3 447700105 = 755398288"
  by (simp_all add: reciprocal_step_fused_def FixedMultiply_sat_def sat32_def)

lemma reciprocal_spec_chain_3_16:
  "reciprocal_step_spec 16 3 1 = 2"
  "reciprocal_step_spec 16 3 2 = 4"
  "reciprocal_step_spec 16 3 4 = 8"
  "reciprocal_step_spec 16 3 8 = 16"
  "reciprocal_step_spec 16 3 16 = 32"
  "reciprocal_step_spec 16 3 32 = 64"
  "reciprocal_step_spec 16 3 64 = 128"
  "reciprocal_step_spec 16 3 128 = 256"
  "reciprocal_step_spec 16 3 256 = 512"
  "reciprocal_step_spec 16 3 512 = 1024"
  "reciprocal_step_spec 16 3 1024 = 2048"
  "reciprocal_step_spec 16 3 2048 = 4096"
  "reciprocal_step_spec 16 3 4096 = 8192"
  "reciprocal_step_spec 16 3 8192 = 16384"
  "reciprocal_step_spec 16 3 16384 = 32768"
  "reciprocal_step_spec 16 3 32768 = 65535"
  "reciprocal_step_spec 16 3 65535 = 131067"
  "reciprocal_step_spec 16 3 131067 = 262122"
  "reciprocal_step_spec 16 3 262122 = 524196"
  "reciprocal_step_spec 16 3 524196 = 1048200"
  "reciprocal_step_spec 16 3 1048200 = 2095632"
  "reciprocal_step_spec 16 3 2095632 = 4188194"
  "reciprocal_step_spec 16 3 4188194 = 8364118"
  "reciprocal_step_spec 16 3 8364118 = 16679355"
  "reciprocal_step_spec 16 3 16679355 = 33164267"
  "reciprocal_step_spec 16 3 33164267 = 65560355"
  "reciprocal_step_spec 16 3 65560355 = 128118595"
  "reciprocal_step_spec 16 3 128118595 = 244771498"
  "reciprocal_step_spec 16 3 244771498 = 447693255"
  "reciprocal_step_spec 16 3 447693255 = 755386730"
  by (simp_all add: reciprocal_step_spec_def FixedMultiply_sat_def sat32_def)

lemma reciprocal_3_16: "lib_dsp_math_reciprocal 3 16 = 755398288"
proof -
  have sign: "\<not> ((3::int32) <s 0)" by (simp add: word_sless_alt)
  have x0: "lshr32 0x80000000 31 = 1" by (simp add: lshr32_def)
  have loop: "reciprocal_for 0 3 16 (shl32 1 0) 1 = (reciprocal_step_fused 16 3 ^^ 30) 1"
    using reciprocal_loop_fused [of 16 3 1] by simp
  have run: "(reciprocal_step_fused 16 3 ^^ 30) 1 = 755398288"
    by (simp add: eval_nat_numeral reciprocal_fused_chain_3_16)
  show ?thesis
    unfolding lib_dsp_math_reciprocal_def Let_def
    by (simp add: sign x0 loop run)
qed

lemma reciprocal_spec_3_16:
  "reciprocal_scheme (reciprocal_step_spec 16) (2 ^ nat (2 * 16 - 32)) 3 = 755386730"
proof -
  have sign: "\<not> ((3::int32) <s 0)" by (simp add: word_sless_alt)
  have run: "(reciprocal_step_spec 16 3 ^^ 30) 1 = 755386730"
    by (simp add: eval_nat_numeral reciprocal_spec_chain_3_16)
  show ?thesis
    unfolding reciprocal_scheme_def Let_def by (simp add: sign run)
qed

text \<open>
  C5. For every input and every Q-format from 16 to 30 the reciprocal is the Newton-Raphson
  scheme of section 4.2: a negative \<open>d\<close> is replaced by \<open>-d + 1\<close>, the iteration starts
  from \<open>2^(2q-32)\<close> and runs thirty steps \<open>x \<leftarrow> x + x\<cdot>(1 - d\<cdot>x)\<close>, and the result is negated
  when the input was negative. In a step the outer product is a saturating fixed-point
  multiply at format \<open>q\<close>, and the term \<open>1 - d\<cdot>x\<close> is one saturating multiply-accumulate
  of \<open>x\<close> and \<open>-d\<close> onto 1.0, rounded once.
\<close>

theorem reciprocal_newton_raphson:
  assumes "16 \<le> q" "q \<le> 30"
  shows "lib_dsp_math_reciprocal d q
         = reciprocal_scheme (reciprocal_step_fused q) (2 ^ nat (2 * q - 32)) d"
proof -
  have q: "q \<le> 31" "q \<noteq> 31" using assms by simp_all
  show ?thesis
    unfolding lib_dsp_math_reciprocal_def reciprocal_scheme_def Let_def
    by (simp only: reciprocal_loop_fused [OF assms] reciprocal_start [OF assms(1) q(1)]
        q(2) if_False)
qed

theorem reciprocal_newton_raphson_witness:
  "lib_dsp_math_reciprocal 0x04000000 28
   = reciprocal_scheme (reciprocal_step_fused 28) (2 ^ nat (2 * 28 - 32)) 0x04000000"
  using reciprocal_newton_raphson [of 28 "0x04000000"] by simp

text \<open>
  With every multiply of the step a FixedMultiply of section 4.1 and \<open>d\<cdot>x\<close> subtracted from
  1.0 afterwards, the scheme gives another result than the function: for \<open>d = 3\<close> at
  \<open>q = 16\<close> the function returns 755398288, the scheme 755386730.
\<close>

theorem reciprocal_unfused_counterexample:
  "lib_dsp_math_reciprocal 3 16 = 755398288
   \<and> reciprocal_scheme (reciprocal_step_spec 16) (2 ^ nat (2 * 16 - 32)) 3 = 755386730
   \<and> lib_dsp_math_reciprocal 3 16
     \<noteq> reciprocal_scheme (reciprocal_step_spec 16) (2 ^ nat (2 * 16 - 32)) 3"
  by (simp only: reciprocal_3_16 reciprocal_spec_3_16) simp

section \<open>The inverse square root loop\<close>

lemma sint_neg_nonpos:
  assumes "0 \<le> sint (d :: int32)"
  shows "sint (- d) \<le> 0"
proof -
  have b: "sint d < 2 ^ 31" using sint32_bounds [of d] by simp
  have "sint (- d) = signed_take_bit 31 (- sint d)" by (simp add: sint_word_minus)
  also have "\<dots> = - sint d"
    using assms b by (intro signed_take_bit_int_eq_self) simp_all
  finally show ?thesis using assms by simp
qed

lemma square_FixedMultiply_nonneg:
  "0 \<le> sint (FixedMultiply_sat (2 ^ nat (q - 1)) y y q)"
proof -
  have "0 \<le> sint y * sint y" by simp
  then have "0 \<le> 2 ^ nat (q - 1) + sint y * sint y" by simp
  then have "0 \<le> (2 ^ nat (q - 1) + sint y * sint y) div 2 ^ nat q"
    by (simp add: pos_imp_zdiv_nonneg_iff)
  then have "0 \<le> sat32 ((2 ^ nat (q - 1) + sint y * sint y) div 2 ^ nat q)"
    by (simp add: sat32_def)
  then show ?thesis
    unfolding FixedMultiply_sat_def by (simp only: sint_word_of_int_sat32)
qed

lemma sdiv32_two: "sdiv32 c 2 = word_of_int (sint c sdiv 2)"
  by (simp add: sdiv32_def)

lemma invsqrroot_body_fused:
  assumes "16 \<le> q" "q \<le> 31" "0 \<le> sint d"
  shows "invsqrroot_body d q (shl32 1 (2 * q - 32)) y = invsqrroot_step_fused q d y"
proof -
  have q: "1 \<le> q" using assms(1) by simp
  define y2 where "y2 = FixedMultiply_sat (2 ^ nat (q - 1)) y y q"
  have n: "0 \<le> sint y2" unfolding y2_def by (rule square_FixedMultiply_nonneg)
  have m: "sint (- d) \<le> 0" by (rule sint_neg_nonpos [OF assms(3)])
  have np: "sint y2 * sint (- d) \<le> 0" using n m by (rule mult_nonneg_nonpos)
  have pr: "- (2 ^ 62) \<le> sint y2 * sint (- d) \<and> sint y2 * sint (- d) \<le> 2 ^ 62"
    by (rule sint_prod_bounds)
  have le: "(2::int) ^ nat (2 * q) \<le> 2 ^ 62" using assms by (intro pow2_le_62) simp
  have c: "(2::int) ^ 62 < 2 ^ 63 - 2 ^ 30" by simp
  have hi: "2 ^ nat (2 * q) + sint y2 * sint (- d) < 2 ^ 63 - 2 ^ 30"
    using le np c by linarith
  have t: "lextract (lsats (maccs (shl32 1 (2 * q - 32)) (shl32 1 (q - 1)) y2 (- d)) q) q
           = FixedMultiply_sat (2 ^ nat (2 * q) + 2 ^ nat (q - 1)) y2 (- d) q"
    using pr hi by (intro one_mac_word [OF assms(1,2)]) simp_all
  show ?thesis
    unfolding invsqrroot_body_def invsqrroot_step_fused_def Let_def
    by (simp only: mul_sat_triple [OF q assms(2)] t [unfolded y2_def] sdiv32_two)
qed

lemma invsqrroot_for_funpow:
  "invsqrroot_for i d q one y = (invsqrroot_body d q one ^^ (10 - i)) y"
proof (induction i d q one y rule: invsqrroot_for.induct)
  case (1 i d q one y)
  show ?case
  proof (cases "i < 10")
    case True
    then have s: "10 - i = Suc (10 - (i + 1))" by simp
    have "invsqrroot_for i d q one y
          = invsqrroot_for (i + 1) d q one (invsqrroot_body d q one y)"
      using True by (subst invsqrroot_for.simps) simp
    also have "\<dots> = (invsqrroot_body d q one ^^ (10 - (i + 1))) (invsqrroot_body d q one y)"
      by (rule 1 [OF True])
    also have "\<dots> = (invsqrroot_body d q one ^^ (10 - i)) y"
      by (simp only: s funpow_Suc_right o_apply)
    finally show ?thesis .
  next
    case False
    then show ?thesis by (subst invsqrroot_for.simps) simp
  qed
qed

lemma invsqrroot_start:
  assumes "0 \<le> q" "q \<le> 31"
  shows "shl32 1 q = 2 ^ nat q"
  using assms by (simp add: shl32_def)

lemma invsqrroot_loop_fused:
  assumes "16 \<le> q" "q \<le> 31" "0 \<le> sint d"
  shows "invsqrroot_for 0 d q (shl32 1 (2 * q - 32)) y = (invsqrroot_step_fused q d ^^ 10) y"
  by (simp only: invsqrroot_for_funpow diff_zero)
     (rule funpow_cong_fun, rule invsqrroot_body_fused [OF assms])

lemma invsqrroot_step_fused_unfold:
  "invsqrroot_step_fused q d y =
     y + FixedMultiply_sat (2 ^ nat (q - 1)) y
           (word_of_int (sint (FixedMultiply_sat (2 ^ nat (2 * q) + 2 ^ nat (q - 1))
              (FixedMultiply_sat (2 ^ nat (q - 1)) y y q) (- d) q) sdiv 2)) q"
  unfolding invsqrroot_step_fused_def Let_def by (rule refl)

lemma invsqrroot_step_spec_unfold:
  "invsqrroot_step_spec q d y =
     y + FixedMultiply_sat (2 ^ nat (q - 1)) y
           (word_of_int (sint (2 ^ nat q - FixedMultiply_sat (2 ^ nat (q - 1)) d
              (FixedMultiply_sat (2 ^ nat (q - 1)) y y q) q) sdiv 2)) q"
  unfolding invsqrroot_step_spec_def Let_def by (rule refl)

text \<open>
  The ten steps for \<open>d = 256\<close> at \<open>q = 16\<close> from the start value \<open>2^16\<close>, with the fused
  correction term and with the correction term as the specification words it. The two runs
  part at the second step.
\<close>

lemma invsqrroot_fused_chain_256_16:
  "invsqrroot_step_fused 16 256 65536 = 98176"
  "invsqrroot_step_fused 16 256 98176 = 146834"
  "invsqrroot_step_fused 16 256 146834 = 218810"
  "invsqrroot_step_fused 16 256 218810 = 323451"
  "invsqrroot_step_fused 16 256 323451 = 469788"
  "invsqrroot_step_fused 16 256 469788 = 657528"
  "invsqrroot_step_fused 16 256 657528 = 857016"
  "invsqrroot_step_fused 16 256 857016 = 999281"
  "invsqrroot_step_fused 16 256 999281 = 1045146"
  "invsqrroot_step_fused 16 256 1045146 = 1048559"
  by (simp_all add: invsqrroot_step_fused_unfold FixedMultiply_sat_def sat32_def)

lemma invsqrroot_spec_chain_256_16:
  "invsqrroot_step_spec 16 256 65536 = 98176"
  "invsqrroot_step_spec 16 256 98176 = 146833"
  "invsqrroot_step_spec 16 256 146833 = 218809"
  "invsqrroot_step_spec 16 256 218809 = 323449"
  "invsqrroot_step_spec 16 256 323449 = 469785"
  "invsqrroot_step_spec 16 256 469785 = 657524"
  "invsqrroot_step_spec 16 256 657524 = 857011"
  "invsqrroot_step_spec 16 256 857011 = 999275"
  "invsqrroot_step_spec 16 256 999275 = 1045155"
  "invsqrroot_step_spec 16 256 1045155 = 1048552"
  by (simp_all add: invsqrroot_step_spec_unfold FixedMultiply_sat_def sat32_def)

lemma invsqrroot_256_16: "lib_dsp_math_invsqrroot 256 16 = 1048559"
proof -
  have y0: "shl32 1 16 = 65536" by (simp add: shl32_def)
  have loop: "invsqrroot_for 0 256 16 (shl32 1 (2 * 16 - 32)) 65536
              = (invsqrroot_step_fused 16 256 ^^ 10) 65536"
    by (rule invsqrroot_loop_fused) simp_all
  have run: "(invsqrroot_step_fused 16 256 ^^ 10) 65536 = 1048559"
    by (simp add: eval_nat_numeral invsqrroot_fused_chain_256_16)
  show ?thesis
    unfolding lib_dsp_math_invsqrroot_def Let_def by (simp only: y0 loop run)
qed

lemma invsqrroot_spec_256_16:
  "invsqrroot_scheme (invsqrroot_step_spec 16) (2 ^ nat 16) 256 = 1048552"
  unfolding invsqrroot_scheme_def
  by (simp add: eval_nat_numeral invsqrroot_spec_chain_256_16)

text \<open>
  C6. For every non-negative input and every Q-format from 16 to 30 the inverse square root
  starts from the raw value \<open>2^q\<close> of 1.0 and runs ten steps \<open>y \<leftarrow> y + y\<cdot>(1 - d\<cdot>y\<^sup>2)/2\<close>. In a
  step \<open>y\<^sup>2\<close> and the last product are saturating fixed-point multiplies at format \<open>q\<close>,
  the term \<open>1 - d\<cdot>y\<^sup>2\<close> is one saturating multiply-accumulate of \<open>y\<^sup>2\<close> and \<open>-d\<close> onto 1.0,
  rounded once, and the halving is a truncating integer division of that term before the
  last product.
\<close>

theorem invsqrroot_newton_raphson:
  assumes "16 \<le> q" "q \<le> 30" "0 \<le> sint d"
  shows "lib_dsp_math_invsqrroot d q
           = invsqrroot_scheme (invsqrroot_step_fused q) (2 ^ nat q) d
         \<and> sint (2 ^ nat q :: int32) = 2 ^ nat q"
proof -
  have q: "0 \<le> q" "q \<le> 31" using assms by simp_all
  have start: "shl32 1 q = 2 ^ nat q" by (rule invsqrroot_start [OF q])
  have run: "lib_dsp_math_invsqrroot d q
             = invsqrroot_scheme (invsqrroot_step_fused q) (2 ^ nat q) d"
    unfolding lib_dsp_math_invsqrroot_def invsqrroot_scheme_def Let_def
    by (simp only: invsqrroot_loop_fused [OF assms(1) q(2) assms(3)] start)
  have "sint (shl32 1 q) = 2 ^ nat q" by (rule shl32_one_sint [OF q(1) assms(2)])
  then have one: "sint (2 ^ nat q :: int32) = 2 ^ nat q" by (simp only: start)
  show ?thesis using run one by (rule conjI)
qed

theorem invsqrroot_newton_raphson_witness:
  "lib_dsp_math_invsqrroot 0x40000000 28
   = invsqrroot_scheme (invsqrroot_step_fused 28) (2 ^ nat 28) 0x40000000"
  using invsqrroot_newton_raphson [of 28 "0x40000000"] by simp

text \<open>
  With every multiply of the step a FixedMultiply of section 4.1 and \<open>d\<cdot>y\<^sup>2\<close> subtracted
  from 1.0 afterwards, the scheme gives another result than the function: for \<open>d = 256\<close>
  at \<open>q = 16\<close> the function returns 1048559, the scheme 1048552.
\<close>

theorem invsqrroot_unfused_counterexample:
  "lib_dsp_math_invsqrroot 256 16 = 1048559
   \<and> invsqrroot_scheme (invsqrroot_step_spec 16) (2 ^ nat 16) 256 = 1048552
   \<and> lib_dsp_math_invsqrroot 256 16
     \<noteq> invsqrroot_scheme (invsqrroot_step_spec 16) (2 ^ nat 16) 256"
  by (simp only: invsqrroot_256_16 invsqrroot_spec_256_16) simp

section \<open>The multiplies of the sine\<close>

text \<open>The value that \<open>sin_reduced\<close> returns, as the C function writes it.\<close>

lemma sin_reduced_value:
  "fst (sin_reduced rad finalSign q) =
     (let modulo = ashr32 (lib_dsp_math_multiply rad ONE_OVER_HALFPI q) q;
          rad1 = rad - ashr32 modulo 2 * PI2;
          finalSign = (if modulo AND 2 \<noteq> 0 then - finalSign else finalSign);
          rad2 = (if modulo AND 2 \<noteq> 0 then rad1 - ashr32 (PI2 + 1) 1 else rad1);
          rad3 = (if modulo AND 1 \<noteq> 0 then ashr32 (PI2 + 1) 1 - rad2 else rad2);
          sqr = lib_dsp_math_multiply (sdiv32 rad3 2) (sdiv32 rad3 2) q
      in (rad3 +
          lib_dsp_math_multiply
            (lib_dsp_math_multiply
              (lib_dsp_math_multiply
                (lib_dsp_math_multiply
                  (lib_dsp_math_multiply r3 sqr q + r2) sqr q + r1) sqr q + r0) sqr q)
            rad3 q)
         * finalSign)"
  unfolding sin_reduced_def Let_def fst_conv by (rule refl)

lemma sin_reduced_events:
  assumes "(a, b, r) \<in> set (snd (sin_reduced rad s q))"
  shows "r = lib_dsp_math_multiply a b q"
  using assms unfolding sin_reduced_def Let_def by auto

lemma sin_multiplies_events:
  assumes "(a, b, r) \<in> set (sin_multiplies rad q)"
  shows "r = lib_dsp_math_multiply a b q"
  using assms sin_reduced_events
  unfolding sin_multiplies_def sin_run_def by (auto split: if_splits)

lemma sin_reduced_first_event:
  "(rad, ONE_OVER_HALFPI, lib_dsp_math_multiply rad ONE_OVER_HALFPI q)
   \<in> set (snd (sin_reduced rad s q))"
  unfolding sin_reduced_def Let_def by simp

lemma sin_multiplies_first_event:
  assumes "0 \<le> sint rad"
  shows "(rad, ONE_OVER_HALFPI, lib_dsp_math_multiply rad ONE_OVER_HALFPI q)
         \<in> set (sin_multiplies rad q)"
  using assms sin_reduced_first_event [of rad q 1]
  unfolding sin_multiplies_def sin_run_def by (simp add: word_sless_alt)

lemma sin_multiplies_length: "length (sin_multiplies rad q) = 7"
  unfolding sin_multiplies_def sin_run_def sin_reduced_def Let_def by simp

text \<open>
  C1. Every fixed-point multiply that the sine performs (the quadrant-index multiply, the
  half-angle-squared multiply and the five polynomial multiplies) is the wrapping
  \<open>lib_dsp_math_multiply\<close>; at a valid Q-format it returns what the saturating multiply
  returns on the same operands whenever the rounded shifted product fits into 32 bits.
\<close>

theorem sin_multiplies_wrapping:
  assumes "(a, b, r) \<in> set (sin_multiplies rad q)"
  shows "r = lib_dsp_math_multiply a b q
         \<and> (1 \<le> q \<and> q \<le> 31
              \<and> - (2 ^ 31) \<le> (sint a * sint b + 2 ^ nat (q - 1)) div 2 ^ nat q
              \<and> (sint a * sint b + 2 ^ nat (q - 1)) div 2 ^ nat q \<le> 2 ^ 31 - 1
            \<longrightarrow> r = lib_dsp_math_multiply_sat a b q)"
proof -
  have r: "r = lib_dsp_math_multiply a b q" by (rule sin_multiplies_events [OF assms])
  have "lib_dsp_math_multiply a b q = lib_dsp_math_multiply_sat a b q"
    if "1 \<le> q" "q \<le> 31"
      "- (2 ^ 31) \<le> (sint a * sint b + 2 ^ nat (q - 1)) div 2 ^ nat q"
      "(sint a * sint b + 2 ^ nat (q - 1)) div 2 ^ nat q \<le> 2 ^ 31 - 1"
    by (simp only: multiply_word [OF that(1,2)] multiply_sat_word [OF that(1,2)]
        sat32_id [OF that(3,4)])
  then show ?thesis using r by simp
qed

theorem sin_multiplies_wrapping_witness:
  "(26353589, ONE_OVER_HALFPI, lib_dsp_math_multiply 26353589 ONE_OVER_HALFPI 24)
     \<in> set (sin_multiplies 26353589 24)
   \<and> lib_dsp_math_multiply 26353589 ONE_OVER_HALFPI 24
     = lib_dsp_math_multiply_sat 26353589 ONE_OVER_HALFPI 24"
proof -
  have e: "(26353589, ONE_OVER_HALFPI, lib_dsp_math_multiply 26353589 ONE_OVER_HALFPI 24)
           \<in> set (sin_multiplies 26353589 24)"
    by (rule sin_multiplies_first_event) simp
  show ?thesis
    using e sin_multiplies_wrapping [OF e] by (simp add: ONE_OVER_HALFPI_def)
qed

text \<open>
  The claim that every multiply of the sine saturates fails at \<open>q = 16\<close> for the angle
  256.0 (raw \<open>2^24\<close>): the quadrant-index multiply wraps to 2734260992 where the saturating
  multiply returns 2147483647.
\<close>

theorem sin_multiplies_saturating_counterexample:
  "(16777216, ONE_OVER_HALFPI, lib_dsp_math_multiply 16777216 ONE_OVER_HALFPI 16)
     \<in> set (sin_multiplies 16777216 16)
   \<and> lib_dsp_math_multiply 16777216 ONE_OVER_HALFPI 16 = 2734260992
   \<and> lib_dsp_math_multiply_sat 16777216 ONE_OVER_HALFPI 16 = 2147483647
   \<and> lib_dsp_math_multiply 16777216 ONE_OVER_HALFPI 16
     \<noteq> lib_dsp_math_multiply_sat 16777216 ONE_OVER_HALFPI 16"
proof -
  have e: "(16777216, ONE_OVER_HALFPI, lib_dsp_math_multiply 16777216 ONE_OVER_HALFPI 16)
           \<in> set (sin_multiplies 16777216 16)"
    by (rule sin_multiplies_first_event) simp
  have m: "lib_dsp_math_multiply 16777216 ONE_OVER_HALFPI 16 = 2734260992"
    by (simp add: multiply_word ONE_OVER_HALFPI_def)
  have s: "lib_dsp_math_multiply_sat 16777216 ONE_OVER_HALFPI 16 = 2147483647"
    by (simp add: multiply_sat_word ONE_OVER_HALFPI_def sat32_def)
  show ?thesis using e by (simp only: m s) simp
qed

section \<open>Oddness of the sine\<close>

lemma multiply_0_left:
  assumes "1 \<le> q" "q \<le> 31"
  shows "lib_dsp_math_multiply 0 b q = 0"
  using bias_div_zero [OF assms(1)] by (simp add: multiply_word [OF assms])

lemma multiply_0_right:
  assumes "1 \<le> q" "q \<le> 31"
  shows "lib_dsp_math_multiply a 0 q = 0"
  using bias_div_zero [OF assms(1)] by (simp add: multiply_word [OF assms])

lemma sign_flip:
  fixes A s :: int32
  shows "A * (if c then - (- s) else - s) = - (A * (if c then - s else s))"
  by simp

lemma sin_reduced_neg: "fst (sin_reduced rad (- s) q) = - fst (sin_reduced rad s q)"
  unfolding sin_reduced_def Let_def fst_conv by (rule sign_flip)

lemma sin_reduced_zero:
  assumes "1 \<le> q" "q \<le> 31"
  shows "fst (sin_reduced 0 s q) = 0"
proof -
  have a: "ashr32 0 n = 0" for n by (simp add: ashr32_def)
  have d: "sdiv32 0 2 = 0" by (simp add: sdiv32_def)
  show ?thesis
    unfolding sin_reduced_def Let_def fst_conv
    by (simp add: multiply_0_left [OF assms] multiply_0_right [OF assms] a d)
qed

lemma sint_minus_int32:
  assumes "sint (x :: int32) \<noteq> - (2 ^ 31)"
  shows "sint (- x) = - sint x"
proof -
  have b: "- (2 ^ 31) \<le> sint x \<and> sint x < 2 ^ 31" by (rule sint32_bounds)
  have "sint (- x) = signed_take_bit 31 (- sint x)" by (simp add: sint_word_minus)
  also have "\<dots> = - sint x"
    using assms b by (intro signed_take_bit_int_eq_self) simp_all
  finally show ?thesis .
qed

lemma sine_negated_angle:
  assumes "1 \<le> q" "q \<le> 31" "sint x \<noteq> - (2 ^ 31)"
  shows "lib_dsp_math_sin (- x) q = - lib_dsp_math_sin x q"
proof -
  have m: "sint (- x) = - sint x" by (rule sint_minus_int32 [OF assms(3)])
  consider (neg) "sint x < 0" | (zero) "sint x = 0" | (pos) "0 < sint x" by linarith
  then show ?thesis
  proof cases
    case neg
    then have "x <s 0" "\<not> (- x <s 0)" using m by (simp_all add: word_sless_alt)
    then show ?thesis
      unfolding lib_dsp_math_sin_def sin_run_def
      by (simp add: sin_reduced_neg [of "- x" 1 q])
  next
    case zero
    then have "x = 0" by (simp add: signed_eq_0_iff)
    then show ?thesis
      unfolding lib_dsp_math_sin_def sin_run_def
      by (simp add: sin_reduced_zero [OF assms(1,2)])
  next
    case pos
    then have "\<not> (x <s 0)" "- x <s 0" using m by (simp_all add: word_sless_alt)
    then show ?thesis
      unfolding lib_dsp_math_sin_def sin_run_def
      by (simp add: sin_reduced_neg [of x 1 q])
  qed
qed

lemma sin_domain_value: "sint MAXint - sint (ashr32 (PI2 + 1) 1) = 2094776468"
  by (simp add: MAXint_def PI2_def ashr32_def)

text \<open>
  C9. The sine is odd: at every valid Q-format and for every angle whose magnitude is below
  the largest raw value minus \<open>\<pi>\<close> (the documented domain), negating the angle negates
  the result.
\<close>

theorem sin_odd:
  assumes "1 \<le> q" "q \<le> 31"
    and "\<bar>sint x\<bar> < sint MAXint - sint (ashr32 (PI2 + 1) 1)"
  shows "lib_dsp_math_sin (- x) q = - lib_dsp_math_sin x q"
proof -
  have "\<bar>sint x\<bar> < 2094776468" using assms(3) by (simp only: sin_domain_value)
  then have "sint x \<noteq> - (2 ^ 31)" by simp
  then show ?thesis by (rule sine_negated_angle [OF assms(1,2)])
qed

theorem sin_odd_witness:
  "lib_dsp_math_sin (- 26353589) 24 = - lib_dsp_math_sin 26353589 24"
  using sin_odd [of 24 26353589] by (simp add: sin_domain_value)

end
